theory Spec2Isabelle
  imports Complex_Main
begin

section \<open>The collaborators that main.py calls\<close>

text \<open>
  \<^verbatim>\<open>src/main.py\<close> is the bootstrap and service-hosting layer of the bot. Everything it
  calls lives in other modules; only what a call does to control flow matters here:
  whether it returns or raises, and, for an awaited coroutine, how often it hands
  control back to the event loop before it does.
\<close>

type_synonym exn = string

datatype service = EmojiPeriodicCheck | AppRun | ServerRun

text \<open>
  One constructor per call site of \<^verbatim>\<open>MainSystem\<close>, in source order.
  \<open>Run s n\<close> is the coroutine of service \<open>s\<close> created in iteration \<open>n\<close> of
  \<^verbatim>\<open>schedule_tasks\<close>; \<open>ReportInitTime\<close> is the body of the final \<^verbatim>\<open>try\<close>.
\<close>

datatype call =
    AddOnlineTimeRecordTask
  | AddStatisticOutputTask
  | AddTelemetryHeartBeatTask
  | LpmmStartUp
  | LoadAllPlugins
  | EmojiInitialize
  | MoodStart
  | ChatInitialize
  | AutoSaveTask
  | RegisterMessageHandler
  | RegisterCustomMessageHandler
  | CheckAndRunMigrations
  | HandleOnStart
  | ReportInitTime
  | Run service nat

datatype message =
    Waking
  | EmojiManagerReady
  | MoodManagerReady
  | ChatManagerReady
  | InitTime int
  | StartFailed exn
  | AllReady

datatype event =
    Started call
  | Finished call
  | Failed call exn
  | Log message

text \<open>
  An awaited coroutine suspends some number of times and then returns or raises, or it
  never completes. A synchronous call returns (\<open>None\<close>) or raises.
\<close>

datatype behaviour = Completes nat | Fails nat exn | Hangs

record env =
  awaited :: "call \<Rightarrow> behaviour"
  called :: "call \<Rightarrow> exn option"
  now :: "nat \<Rightarrow> real"

section \<open>Coroutines\<close>

text \<open>
  A coroutine is the sequence of things it does to the event loop: it emits an
  observable event, yields (\<open>Suspend\<close>), waits for something that never comes
  (\<open>Block\<close>), starts a side task (\<^verbatim>\<open>asyncio.create_task\<close>), awaits
  \<^verbatim>\<open>asyncio.gather\<close> of a list of coroutines, loops (\<^verbatim>\<open>while True\<close>, with the
  iteration number), returns or raises. No constructor catches an exception: the only
  handler of main.py wraps synchronous code and re-raises (see \<open>report_init_time\<close>).
\<close>

datatype proc =
    Return
  | Raise exn
  | Emit event proc
  | Suspend proc
  | Block
  | CreateTask proc proc
  | Gather "proc list" proc
  | WhileTrue nat "nat \<Rightarrow> proc"

text \<open>Sequential composition: the statements of \<open>q\<close> follow those of \<open>p\<close>.\<close>

fun seq :: "proc \<Rightarrow> proc \<Rightarrow> proc" where
  "seq Return q = q"
| "seq (Raise e) q = Raise e"
| "seq (Emit x p) q = Emit x (seq p q)"
| "seq (Suspend p) q = Suspend (seq p q)"
| "seq Block q = Block"
| "seq (CreateTask c p) q = CreateTask c (seq p q)"
| "seq (Gather cs p) q = Gather cs (seq p q)"
| "seq (WhileTrue n f) q = WhileTrue n f"

fun block :: "proc list \<Rightarrow> proc" where
  "block [] = Return"
| "block (p # ps) = seq p (block ps)"

fun suspend :: "nat \<Rightarrow> proc \<Rightarrow> proc" where
  "suspend 0 p = p"
| "suspend (Suc k) p = Suspend (suspend k p)"

text \<open>\<^verbatim>\<open>await c(...)\<close> of a collaborator's coroutine, run inside the awaiting task.\<close>

definition await :: "env \<Rightarrow> call \<Rightarrow> proc" where
  "await E c = Emit (Started c)
     (case awaited E c of
        Completes k \<Rightarrow> suspend k (Emit (Finished c) Return)
      | Fails k e \<Rightarrow> suspend k (Emit (Failed c e) (Raise e))
      | Hangs \<Rightarrow> Block)"

text \<open>A synchronous call \<^verbatim>\<open>c(...)\<close>: it cannot yield to the event loop.\<close>

definition invoke :: "env \<Rightarrow> call \<Rightarrow> proc" where
  "invoke E c = Emit (Started c)
     (case called E c of
        None \<Rightarrow> Emit (Finished c) Return
      | Some e \<Rightarrow> Emit (Failed c e) (Raise e))"

definition info :: "message \<Rightarrow> proc" where
  "info m = Emit (Log m) Return"

section \<open>MainSystem\<close>

text \<open>Python's \<^verbatim>\<open>int(x)\<close> of a float truncates towards zero.\<close>

definition py_int :: "real \<Rightarrow> int" where
  "py_int x = (if 0 \<le> x then \<lfloor>x\<rfloor> else \<lceil>x\<rceil>)"

text \<open>
  Lines 117-122: \<^verbatim>\<open>init_time = int(1000 * (time.time() - init_start_time))\<close> is
  logged; if the body raises, the error is logged and raised again.
\<close>

definition report_init_time :: "env \<Rightarrow> real \<Rightarrow> proc" where
  "report_init_time E init_start_time =
     (case called E ReportInitTime of
        None \<Rightarrow> info (InitTime (py_int (1000 * (now E 1 - init_start_time))))
      | Some e \<Rightarrow> Emit (Log (StartFailed e)) (Raise e))"

text \<open>
  \<^verbatim>\<open>MainSystem._init_components\<close> (lines 58-122), statement by statement. The
  constructor of a task object and the getter of a manager are part of the call they
  feed; the two imports of lines 112-113 are part of \<open>HandleOnStart\<close>.
\<close>

definition init_statements :: "env \<Rightarrow> proc list" where
  "init_statements E =
     (let init_start_time = now E 0 in
      [await E AddOnlineTimeRecordTask,
       await E AddStatisticOutputTask,
       await E AddTelemetryHeartBeatTask,
       invoke E LpmmStartUp,
       invoke E LoadAllPlugins,
       invoke E EmojiInitialize,
       info EmojiManagerReady,
       await E MoodStart,
       info MoodManagerReady,
       await E ChatInitialize,
       CreateTask (await E AutoSaveTask) Return,
       info ChatManagerReady,
       invoke E RegisterMessageHandler,
       invoke E RegisterCustomMessageHandler,
       await E CheckAndRunMigrations,
       await E HandleOnStart,
       report_init_time E init_start_time])"

definition init_components :: "env \<Rightarrow> proc" where
  "init_components E = block (init_statements E)"

text \<open>\<^verbatim>\<open>MainSystem.initialize\<close> (lines 39-56).\<close>

definition initialize :: "env \<Rightarrow> proc" where
  "initialize E =
     block [
       info Waking,
       Gather [init_components E] Return,
       info AllReady
     ]"

text \<open>\<^verbatim>\<open>MainSystem.schedule_tasks\<close> (lines 124-133).\<close>

definition schedule_tasks :: "env \<Rightarrow> proc" where
  "schedule_tasks E =
     WhileTrue 0 (\<lambda>n.
       Gather [
         await E (Run EmojiPeriodicCheck n),
         await E (Run AppRun n),
         await E (Run ServerRun n)
       ] Return)"

text \<open>\<^verbatim>\<open>main\<close> (lines 144-150).\<close>

definition main :: "env \<Rightarrow> proc" where
  "main E = Gather [initialize E, schedule_tasks E] Return"

section \<open>The event loop\<close>

text \<open>
  asyncio runs one task at a time, taking tasks from a first-in first-out queue; a task
  runs until it awaits something that is not ready. A task that awaits \<^verbatim>\<open>gather\<close>
  waits for the tasks created for its arguments: it is resumed when all of them have
  returned, or with the exception of the first of them that raises (the others keep
  running). The callbacks through which asyncio delivers a result are folded into the
  step that produces it. \<^verbatim>\<open>asyncio.run\<close> stops the loop when task 0 is done.
\<close>

datatype status =
    Ready proc
  | Waiting "nat list" proc
  | Blocked
  | Done
  | Err exn

text \<open>
  The loop's state: the task table (task ids are given out in order of creation), for
  each task created by \<^verbatim>\<open>gather\<close> the task that awaits it, the queue of ready tasks,
  and the events seen so far.
\<close>

record loop =
  stat :: "nat \<rightharpoonup> status"
  waiter :: "nat \<rightharpoonup> nat"
  ready :: "nat list"
  fresh :: nat
  trace :: "event list"

definition start :: "proc \<Rightarrow> loop" where
  "start p = \<lparr>stat = [0 \<mapsto> Ready p], waiter = Map.empty, ready = [0], fresh = 1, trace = []\<rparr>"

definition ended :: "status option \<Rightarrow> bool" where
  "ended st = (case st of Some Done \<Rightarrow> True | Some (Err e) \<Rightarrow> True | _ \<Rightarrow> False)"

definition returned :: "status option \<Rightarrow> bool" where
  "returned st = (case st of Some Done \<Rightarrow> True | _ \<Rightarrow> False)"

definition halted :: "loop \<Rightarrow> bool" where
  "halted s = ended (stat s 0)"

text \<open>New tasks for the coroutines \<open>cs\<close>, each awaited by \<open>w\<close> (if any), in order.\<close>

fun spawn :: "nat option \<Rightarrow> proc list \<Rightarrow> loop \<Rightarrow> loop" where
  "spawn w [] s = s"
| "spawn w (c # cs) s =
     spawn w cs
       (s\<lparr>stat := (stat s)(fresh s \<mapsto> Ready c),
          waiter := (waiter s)(fresh s := w),
          ready := ready s @ [fresh s],
          fresh := Suc (fresh s)\<rparr>)"

text \<open>A task has ended with result \<open>r\<close>; the task \<open>w\<close> awaiting it, if any, is told.\<close>

definition wake :: "nat option \<Rightarrow> exn option \<Rightarrow> loop \<Rightarrow> loop" where
  "wake w r s =
     (case w of
        None \<Rightarrow> s
      | Some p \<Rightarrow>
          (case stat s p of
             Some (Waiting cs k) \<Rightarrow>
               (case r of
                  Some e \<Rightarrow> s\<lparr>stat := (stat s)(p \<mapsto> Ready (Raise e)), ready := ready s @ [p]\<rparr>
                | None \<Rightarrow>
                    if list_all (\<lambda>c. returned (stat s c)) cs
                    then s\<lparr>stat := (stat s)(p \<mapsto> Ready k), ready := ready s @ [p]\<rparr>
                    else s)
           | _ \<Rightarrow> s))"

text \<open>Task \<open>t\<close>, at the head of the queue \<open>t # q\<close>, does the next thing of its coroutine.\<close>

definition exec :: "nat \<Rightarrow> nat list \<Rightarrow> proc \<Rightarrow> loop \<Rightarrow> loop" where
  "exec t q p s =
     (case p of
        Return \<Rightarrow> wake (waiter s t) None (s\<lparr>stat := (stat s)(t \<mapsto> Done), ready := q\<rparr>)
      | Raise e \<Rightarrow> wake (waiter s t) (Some e) (s\<lparr>stat := (stat s)(t \<mapsto> Err e), ready := q\<rparr>)
      | Emit x p' \<Rightarrow> s\<lparr>stat := (stat s)(t \<mapsto> Ready p'), trace := trace s @ [x]\<rparr>
      | Suspend p' \<Rightarrow> s\<lparr>stat := (stat s)(t \<mapsto> Ready p'), ready := q @ [t]\<rparr>
      | Block \<Rightarrow> s\<lparr>stat := (stat s)(t \<mapsto> Blocked), ready := q\<rparr>
      | CreateTask c p' \<Rightarrow> spawn None [c] (s\<lparr>stat := (stat s)(t \<mapsto> Ready p')\<rparr>)
      | Gather cs p' \<Rightarrow>
          if cs = [] then s\<lparr>stat := (stat s)(t \<mapsto> Ready p')\<rparr>
          else
            spawn (Some t) cs
              (s\<lparr>stat := (stat s)(t \<mapsto> Waiting [fresh s ..< fresh s + length cs] p'),
                 ready := q\<rparr>)
      | WhileTrue n f \<Rightarrow> s\<lparr>stat := (stat s)(t \<mapsto> Ready (seq (f n) (WhileTrue (Suc n) f)))\<rparr>)"

definition step :: "loop \<Rightarrow> loop" where
  "step s =
     (if halted s then s
      else
        (case ready s of
           [] \<Rightarrow> s
         | t # q \<Rightarrow>
             (case stat s t of
                Some (Ready p) \<Rightarrow> exec t q p s
              | _ \<Rightarrow> s\<lparr>ready := q\<rparr>)))"

fun run :: "nat \<Rightarrow> loop \<Rightarrow> loop" where
  "run 0 s = s"
| "run (Suc n) s = run n (step s)"

section \<open>Orderings of events\<close>

text \<open>
  \<open>precedes a b xs\<close>: in the trace \<open>xs\<close>, \<open>b\<close> does not occur before the first
  \<open>a\<close>. \<open>after A b xs\<close>: every \<open>b\<close> in \<open>xs\<close> has an event of \<open>A\<close> before it.
\<close>

fun precedes :: "'a \<Rightarrow> 'a \<Rightarrow> 'a list \<Rightarrow> bool" where
  "precedes a b [] = True"
| "precedes a b (x # xs) = (x = a \<or> (x \<noteq> b \<and> precedes a b xs))"

definition after :: "event set \<Rightarrow> event \<Rightarrow> event list \<Rightarrow> bool" where
  "after A b xs = (\<forall>i < length xs. xs ! i = b \<longrightarrow> (\<exists>j < i. xs ! j \<in> A))"

text \<open>
  Two properties of a coroutine, by which an ordering of events is read off the code.
  \<open>must_emit A p\<close>: \<open>p\<close> does not return before it has emitted an event of \<open>A\<close>.
  \<open>held A b p\<close>: neither \<open>p\<close> nor a task it creates emits \<open>b\<close> before an event of
  \<open>A\<close>; what follows a \<^verbatim>\<open>gather\<close> is also held back by a gathered coroutine that must
  emit first, and an iteration of a loop by an earlier iteration that must.
\<close>

primrec must_emit :: "event set \<Rightarrow> proc \<Rightarrow> bool" where
  "must_emit A Return = False"
| "must_emit A (Raise e) = True"
| "must_emit A (Emit x p) = (x \<in> A \<or> must_emit A p)"
| "must_emit A (Suspend p) = must_emit A p"
| "must_emit A Block = True"
| "must_emit A (CreateTask c p) = must_emit A p"
| "must_emit A (Gather cs p) = must_emit A p"
| "must_emit A (WhileTrue n f) = True"

primrec must_pass :: "event set \<Rightarrow> proc \<Rightarrow> bool" where
  "must_pass A Return = False"
| "must_pass A (Raise e) = True"
| "must_pass A (Emit x p) = (x \<in> A \<or> must_pass A p)"
| "must_pass A (Suspend p) = must_pass A p"
| "must_pass A Block = True"
| "must_pass A (CreateTask c p) = must_pass A p"
| "must_pass A (Gather cs p) = (must_pass A p \<or> (\<exists>c \<in> set cs. must_emit A c))"
| "must_pass A (WhileTrue n f) = True"

primrec held :: "event set \<Rightarrow> event \<Rightarrow> proc \<Rightarrow> bool" where
  "held A b Return = True"
| "held A b (Raise e) = True"
| "held A b (Emit x p) = (x \<in> A \<or> (x \<noteq> b \<and> held A b p))"
| "held A b (Suspend p) = held A b p"
| "held A b Block = True"
| "held A b (CreateTask c p) = (held A b c \<and> held A b p)"
| "held A b (Gather cs p) =
     (list_all (\<lambda>h. h) (map (held A b) cs) \<and>
      (held A b p \<or> (\<exists>c \<in> set cs. must_emit A c)))"
| "held A b (WhileTrue n f) =
     (\<forall>j \<ge> n. (\<forall>i. n \<le> i \<and> i < j \<longrightarrow> \<not> must_pass A (f i)) \<longrightarrow> held A b (f j))"

definition pend :: "event set \<Rightarrow> loop \<Rightarrow> nat \<Rightarrow> bool" where
  "pend A s c =
     (case stat s c of
        Some (Ready p) \<Rightarrow> must_emit A p
      | Some (Waiting cs k) \<Rightarrow> must_emit A k
      | Some Done \<Rightarrow> False
      | _ \<Rightarrow> True)"

definition safe_at :: "event set \<Rightarrow> event \<Rightarrow> loop \<Rightarrow> nat \<Rightarrow> bool" where
  "safe_at A b s t =
     (case stat s t of
        Some (Ready p) \<Rightarrow> held A b p
      | Some (Waiting cs k) \<Rightarrow>
          (\<forall>c \<in> set cs. c < fresh s) \<and> (held A b k \<or> (\<exists>c \<in> set cs. pend A s c))
      | _ \<Rightarrow> True)"

fun held_seqs :: "event set \<Rightarrow> event \<Rightarrow> proc list \<Rightarrow> bool" where
  "held_seqs A b [] = True"
| "held_seqs A b (p # ps) = (held A b p \<and> (must_pass A p \<or> held_seqs A b ps))"

definition ok :: "event set \<Rightarrow> event \<Rightarrow> loop \<Rightarrow> bool" where
  "ok A b s = (\<forall>t. safe_at A b s t)"

definition safe :: "event set \<Rightarrow> event \<Rightarrow> loop \<Rightarrow> bool" where
  "safe A b s = (after A b (trace s) \<and> (set (trace s) \<inter> A \<noteq> {} \<or> ok A b s))"

section \<open>The order of the source\<close>

text \<open>
  The first initializations of \<^verbatim>\<open>_init_components\<close> (lines 63-91), in source order,
  ending with the auto-save side task. \<open>pairs xs\<close> lists every \<open>(x, y)\<close> with \<open>x\<close>
  before \<open>y\<close> in \<open>xs\<close>.
\<close>

definition phase1 :: "call list" where
  "phase1 = [AddOnlineTimeRecordTask, AddStatisticOutputTask, AddTelemetryHeartBeatTask,
     LpmmStartUp, LoadAllPlugins, EmojiInitialize, MoodStart, ChatInitialize, AutoSaveTask]"

fun pairs :: "'a list \<Rightarrow> ('a \<times> 'a) list" where
  "pairs [] = []"
| "pairs (x # xs) = map (Pair x) xs @ pairs xs"

section \<open>Runs used as examples\<close>

text \<open>Every collaborator returns at once; the three services never return.\<close>

definition calm :: env where
  "calm = \<lparr>awaited = (\<lambda>c. case c of Run s n \<Rightarrow> Hangs | _ \<Rightarrow> Completes 0),
            called = (\<lambda>c. None),
            now = (\<lambda>n. real n)\<rparr>"

text \<open>
  \<^verbatim>\<open>app.run()\<close> returns at once in the first iteration of \<^verbatim>\<open>schedule_tasks\<close>;
  the two other services never return.
\<close>

definition one_exits :: env where
  "one_exits = \<lparr>awaited = (\<lambda>c. case c of Run AppRun 0 \<Rightarrow> Completes 0 | Run s n \<Rightarrow> Hangs | _ \<Rightarrow> Completes 0),
            called = (\<lambda>c. None),
            now = (\<lambda>n. real n)\<rparr>"

text \<open>The three services return in the first iteration and never in the second.\<close>

definition one_cycle :: env where
  "one_cycle = \<lparr>awaited = (\<lambda>c. case c of Run s 0 \<Rightarrow> Completes 1 | Run s n \<Rightarrow> Hangs | _ \<Rightarrow> Completes 0),
            called = (\<lambda>c. None),
            now = (\<lambda>n. real n)\<rparr>"

text \<open>
  The initializations of step 1 of the specification (section 4.3), in the order of the
  source, and the specification's reading of them: one \<^verbatim>\<open>gather\<close> of all eight.
\<close>

definition initializations :: "call list" where
  "initializations = [AddOnlineTimeRecordTask, AddStatisticOutputTask, AddTelemetryHeartBeatTask,
     LpmmStartUp, LoadAllPlugins, EmojiInitialize, MoodStart, ChatInitialize]"

definition spec_phase1 :: "env \<Rightarrow> proc" where
  "spec_phase1 E =
     Gather [
       await E AddOnlineTimeRecordTask,
       await E AddStatisticOutputTask,
       await E AddTelemetryHeartBeatTask,
       invoke E LpmmStartUp,
       invoke E LoadAllPlugins,
       invoke E EmojiInitialize,
       await E MoodStart,
       await E ChatInitialize
     ] Return"

text \<open>\<^verbatim>\<open>mood_manager.start()\<close> never completes.\<close>

definition mood_hangs :: env where
  "mood_hangs = \<lparr>awaited = (\<lambda>c. case c of Run s n \<Rightarrow> Hangs | MoodStart \<Rightarrow> Hangs | _ \<Rightarrow> Completes 0),
            called = (\<lambda>c. None),
            now = (\<lambda>n. real n)\<rparr>"

text \<open>\<^verbatim>\<open>plugin_manager.load_all_plugins()\<close> raises.\<close>

definition plugins_fail :: env where
  "plugins_fail = \<lparr>awaited = (\<lambda>c. case c of Run s n \<Rightarrow> Hangs | _ \<Rightarrow> Completes 0),
            called = (\<lambda>c. case c of LoadAllPlugins \<Rightarrow> Some ''bad plugin'' | _ \<Rightarrow> None),
            now = (\<lambda>n. real n)\<rparr>"



section \<open>Relabelling events\<close>

text \<open>
  \<open>map_loop h\<close> applies \<open>h\<close> to every event of a state of the loop: those already in
  the trace and those its coroutines have yet to emit. \<open>unclock\<close> forgets the number in
  the log line of line 119, the only place where a reading of the clock ends up.
\<close>

primrec map_proc :: "(event \<Rightarrow> event) \<Rightarrow> proc \<Rightarrow> proc" where
  "map_proc h Return = Return"
| "map_proc h (Raise e) = Raise e"
| "map_proc h (Emit x p) = Emit (h x) (map_proc h p)"
| "map_proc h (Suspend p) = Suspend (map_proc h p)"
| "map_proc h Block = Block"
| "map_proc h (CreateTask c p) = CreateTask (map_proc h c) (map_proc h p)"
| "map_proc h (Gather cs p) = Gather (map (map_proc h) cs) (map_proc h p)"
| "map_proc h (WhileTrue n f) = WhileTrue n (\<lambda>m. map_proc h (f m))"

fun map_status :: "(event \<Rightarrow> event) \<Rightarrow> status \<Rightarrow> status" where
  "map_status h (Ready p) = Ready (map_proc h p)"
| "map_status h (Waiting cs p) = Waiting cs (map_proc h p)"
| "map_status h Blocked = Blocked"
| "map_status h Done = Done"
| "map_status h (Err e) = Err e"

definition map_loop :: "(event \<Rightarrow> event) \<Rightarrow> loop \<Rightarrow> loop" where
  "map_loop h s = s\<lparr>stat := (\<lambda>t. map_option (map_status h) (stat s t)), trace := map h (trace s)\<rparr>"




primrec seg :: "proc \<Rightarrow> nat" where
  "seg Return = 1"
| "seg (Raise e) = 1"
| "seg (Emit x p) = Suc (seg p)"
| "seg (Suspend p) = 1"
| "seg Block = 1"
| "seg (CreateTask c p) = Suc (seg p)"
| "seg (Gather cs p) = (if cs = [] then Suc (seg p) else 1)"
| "seg (WhileTrue n f) = Suc (seg (f n))"








text \<open>
  For a coroutine that awaits no other task: \<open>stop p\<close> is its last statement and
  \<open>outcome p\<close> the state in which its task ends (\<open>None\<close> if it awaits tasks or
  loops).
\<close>

primrec stop :: "proc \<Rightarrow> proc" where
  "stop Return = Return"
| "stop (Raise e) = Raise e"
| "stop (Emit x p) = stop p"
| "stop (Suspend p) = stop p"
| "stop Block = Block"
| "stop (CreateTask c p) = stop p"
| "stop (Gather cs p) = Gather cs p"
| "stop (WhileTrue n f) = WhileTrue n f"

primrec outcome :: "proc \<Rightarrow> status option" where
  "outcome Return = Some Done"
| "outcome (Raise e) = Some (Err e)"
| "outcome (Emit x p) = outcome p"
| "outcome (Suspend p) = outcome p"
| "outcome Block = Some Blocked"
| "outcome (CreateTask c p) = outcome p"
| "outcome (Gather cs p) = None"
| "outcome (WhileTrue n f) = None"











section \<open>The event loop keeps what the code orders\<close>


lemma spawn_stat:
  "stat (spawn w cs s) t =
     (if fresh s \<le> t \<and> t < fresh s + length cs then Some (Ready (cs ! (t - fresh s))) else stat s t)"
proof (induction cs arbitrary: s)
  case Nil
  then show ?case by auto
next
  case (Cons c cs)
  show ?case by (auto simp: Cons.IH nth_Cons' Suc_diff_le)
qed

lemma spawn_fresh: "fresh (spawn w cs s) = fresh s + length cs"
  by (induction cs arbitrary: s) simp_all

lemma spawn_trace: "trace (spawn w cs s) = trace s"
  by (induction cs arbitrary: s) simp_all




lemma must_emit_seq: "must_emit A p \<or> must_emit A q \<Longrightarrow> must_emit A (seq p q)"
  by (induction p) auto

lemma held_seq: "held A b p \<Longrightarrow> held A b q \<or> must_pass A p \<Longrightarrow> held A b (seq p q)"
  by (induction p) (auto simp: list_all_iff)

lemma ok_update:
  assumes "ok A b s"
    and "\<And>c. c < fresh s \<Longrightarrow> pend A s c \<Longrightarrow> pend A s' c"
    and "fresh s \<le> fresh s'"
    and "\<And>t. stat s' t \<noteq> stat s t \<Longrightarrow> safe_at A b s' t"
  shows "ok A b s'"
  unfolding ok_def
proof
  fix t
  show "safe_at A b s' t"
  proof (cases "stat s' t = stat s t")
    case False
    then show ?thesis by (rule assms(4))
  next
    case True
    have "safe_at A b s t" using assms(1) by (simp add: ok_def)
    then show ?thesis
      using True assms(2) assms(3)
      by (fastforce simp: safe_at_def split: option.splits status.splits)
  qed
qed

lemma returned_not_pend: "returned (stat s c) \<Longrightarrow> \<not> pend A s c"
  by (auto simp: returned_def pend_def split: option.splits status.splits)

lemma ok_wake: "ok A b s \<Longrightarrow> ok A b (wake w r s)"
proof (cases w)
  case None
  assume "ok A b s"
  then show ?thesis using None by (simp add: wake_def)
next
  case (Some p)
  assume ok: "ok A b s"
  show ?thesis
  proof (cases "\<exists>cs k. stat s p = Some (Waiting cs k)")
    case False
    then have "wake w r s = s"
      using Some by (auto simp: wake_def split: option.splits status.splits)
    then show ?thesis using ok by simp
  next
    case True
    then obtain cs k where W: "stat s p = Some (Waiting cs k)" by blast
    have at: "safe_at A b s p" using ok by (simp add: ok_def)
    show ?thesis
    proof (cases r)
      case (Some e)
      have eq: "wake w r s = s\<lparr>stat := (stat s)(p \<mapsto> Ready (Raise e)), ready := ready s @ [p]\<rparr>"
        using \<open>w = Some p\<close> W Some by (simp add: wake_def)
      show ?thesis
        unfolding eq
        by (rule ok_update [OF ok]) (auto simp: pend_def safe_at_def W split: if_splits)
    next
      case None
      show ?thesis
      proof (cases "list_all (\<lambda>c. returned (stat s c)) cs")
        case False
        then have "wake w r s = s"
          using \<open>w = Some p\<close> W None by (simp add: wake_def)
        then show ?thesis using ok by simp
      next
        case True
        have eq: "wake w r s = s\<lparr>stat := (stat s)(p \<mapsto> Ready k), ready := ready s @ [p]\<rparr>"
          using \<open>w = Some p\<close> W None True by (simp add: wake_def)
        have "\<forall>c \<in> set cs. \<not> pend A s c"
          using True returned_not_pend by (auto simp: list_all_iff)
        then have hk: "held A b k" using at W by (auto simp: safe_at_def)
        show ?thesis
          unfolding eq
          by (rule ok_update [OF ok]) (auto simp: pend_def safe_at_def W hk split: if_splits)
      qed
    qed
  qed
qed

lemma nth_offset_mem: "i \<le> t \<Longrightarrow> t < i + length cs \<Longrightarrow> cs ! (t - i) \<in> set cs"
  by (simp add: less_diff_conv2)

lemma ok_spawn:
  assumes "ok A b s" and "\<forall>c \<in> set cs. held A b c"
  shows "ok A b (spawn w cs s)"
proof (rule ok_update [OF assms(1)])
  fix c assume "c < fresh s" "pend A s c"
  then show "pend A (spawn w cs s) c" by (simp add: pend_def spawn_stat)
next
  show "fresh s \<le> fresh (spawn w cs s)" by (simp add: spawn_fresh)
next
  fix t assume "stat (spawn w cs s) t \<noteq> stat s t"
  then have "fresh s \<le> t \<and> t < fresh s + length cs"
    by (auto simp: spawn_stat split: if_splits)
  then show "safe_at A b (spawn w cs s) t"
    using assms(2) nth_offset_mem [of "fresh s" t cs] by (simp add: safe_at_def spawn_stat)
qed

lemma ok_gather:
  assumes ok: "ok A b s" and t: "stat s t = Some (Ready (Gather cs p'))"
  shows "ok A b (spawn (Some t) cs
           (s\<lparr>stat := (stat s)(t \<mapsto> Waiting [fresh s ..< fresh s + length cs] p'), ready := q\<rparr>))"
    (is "ok A b ?s'")
proof (rule ok_update [OF ok])
  fix c assume "c < fresh s" "pend A s c"
  then show "pend A ?s' c" using t by (auto simp: pend_def spawn_stat)
next
  show "fresh s \<le> fresh ?s'" by (simp add: spawn_fresh)
next
  have h: "held A b (Gather cs p')" using ok t by (auto simp: ok_def safe_at_def dest: spec [of _ t])
  fix u assume ch: "stat ?s' u \<noteq> stat s u"
  show "safe_at A b ?s' u"
  proof (cases "fresh s \<le> u \<and> u < fresh s + length cs")
    case True
    then show ?thesis
      using h nth_offset_mem [of "fresh s" u cs] by (simp add: safe_at_def spawn_stat list_all_iff)
  next
    case False
    then have u: "u = t" using ch by (auto simp: spawn_stat split: if_splits)
    have "held A b p' \<or> (\<exists>c \<in> set cs. must_emit A c)" using h by simp
    then have "held A b p' \<or> (\<exists>c \<in> {fresh s ..< fresh s + length cs}. pend A ?s' c)"
    proof
      assume "held A b p'" then show ?thesis ..
    next
      assume "\<exists>c \<in> set cs. must_emit A c"
      then obtain i where i: "i < length cs" "must_emit A (cs ! i)"
        by (auto simp: in_set_conv_nth)
      then have "pend A ?s' (fresh s + i)" by (simp add: pend_def spawn_stat)
      then show ?thesis using i(1) by (intro disjI2 bexI [of _ "fresh s + i"]) auto
    qed
    then show ?thesis using False u by (auto simp: safe_at_def spawn_stat spawn_fresh)
  qed
qed

lemma ok_exec:
  assumes ok: "ok A b s" and t: "stat s t = Some (Ready p)"
    and quiet: "\<And>x p'. p = Emit x p' \<Longrightarrow> x \<notin> A"
  shows "ok A b (exec t q p s)"
proof -
  have h: "held A b p" using ok t by (auto simp: ok_def safe_at_def dest: spec [of _ t])
  show ?thesis
  proof (cases p)
    case Return
    have "ok A b (s\<lparr>stat := (stat s)(t \<mapsto> Done), ready := q\<rparr>)"
      by (rule ok_update [OF ok]) (auto simp: pend_def safe_at_def t Return split: if_splits)
    then show ?thesis using Return by (simp add: exec_def ok_wake)
  next
    case (Raise e)
    have "ok A b (s\<lparr>stat := (stat s)(t \<mapsto> Err e), ready := q\<rparr>)"
      by (rule ok_update [OF ok]) (auto simp: pend_def safe_at_def t Raise split: if_splits)
    then show ?thesis using Raise by (simp add: exec_def ok_wake)
  next
    case (Emit x p')
    have "ok A b (s\<lparr>stat := (stat s)(t \<mapsto> Ready p'), trace := trace s @ [x]\<rparr>)"
      using h quiet [OF Emit]
      by (intro ok_update [OF ok]) (auto simp: pend_def safe_at_def t Emit split: if_splits)
    then show ?thesis using Emit by (simp add: exec_def)
  next
    case (Suspend p')
    have "ok A b (s\<lparr>stat := (stat s)(t \<mapsto> Ready p'), ready := q @ [t]\<rparr>)"
      using h
      by (intro ok_update [OF ok]) (auto simp: pend_def safe_at_def t Suspend split: if_splits)
    then show ?thesis using Suspend by (simp add: exec_def)
  next
    case Block
    have "ok A b (s\<lparr>stat := (stat s)(t \<mapsto> Blocked), ready := q\<rparr>)"
      by (rule ok_update [OF ok]) (auto simp: pend_def safe_at_def t Block split: if_splits)
    then show ?thesis using Block by (simp add: exec_def)
  next
    case (CreateTask c p')
    have "ok A b (s\<lparr>stat := (stat s)(t \<mapsto> Ready p')\<rparr>)"
      using h
      by (intro ok_update [OF ok]) (auto simp: pend_def safe_at_def t CreateTask split: if_splits)
    then have "ok A b (spawn None [c] (s\<lparr>stat := (stat s)(t \<mapsto> Ready p')\<rparr>))"
      using h CreateTask by (intro ok_spawn) auto
    then show ?thesis using CreateTask by (simp add: exec_def)
  next
    case (Gather cs p')
    show ?thesis
    proof (cases "cs = []")
      case True
      have "ok A b (s\<lparr>stat := (stat s)(t \<mapsto> Ready p')\<rparr>)"
        using h True
        by (intro ok_update [OF ok]) (auto simp: pend_def safe_at_def t Gather split: if_splits)
      then show ?thesis using Gather True by (simp add: exec_def)
    next
      case False
      then show ?thesis using Gather ok_gather [OF ok, of t cs p' q] t by (simp add: exec_def)
    qed
  next
    case (WhileTrue n f)
    have 1: "held A b (f n)" using h WhileTrue by auto
    have 2: "held A b (WhileTrue (Suc n) f) \<or> must_pass A (f n)"
    proof (cases "must_pass A (f n)")
      case True then show ?thesis ..
    next
      case False
      have "held A b (f j)" if "Suc n \<le> j" "\<forall>i. Suc n \<le> i \<and> i < j \<longrightarrow> \<not> must_pass A (f i)" for j
      proof -
        have "\<forall>i. n \<le> i \<and> i < j \<longrightarrow> \<not> must_pass A (f i)"
        proof (intro allI impI)
          fix i assume i: "n \<le> i \<and> i < j"
          show "\<not> must_pass A (f i)"
          proof (cases "i = n")
            case True then show ?thesis using False by simp
          next
            case False
            then have "Suc n \<le> i \<and> i < j" using i by simp
            then show ?thesis using that(2) by blast
          qed
        qed
        then show ?thesis using h WhileTrue that(1) by auto
      qed
      then show ?thesis by simp
    qed
    have "ok A b (s\<lparr>stat := (stat s)(t \<mapsto> Ready (seq (f n) (WhileTrue (Suc n) f)))\<rparr>)"
      using held_seq [OF 1 2] must_emit_seq [of A "f n" "WhileTrue (Suc n) f"]
      by (intro ok_update [OF ok]) (auto simp: pend_def safe_at_def t WhileTrue split: if_splits)
    then show ?thesis using WhileTrue by (simp add: exec_def)
  qed
qed

lemma after_snoc:
  "after A b (xs @ [x]) = (after A b xs \<and> (x = b \<longrightarrow> (\<exists>j < length xs. xs ! j \<in> A)))"
proof
  assume L: "after A b (xs @ [x])"
  have "after A b xs"
    unfolding after_def
  proof (intro allI impI)
    fix i assume i: "i < length xs" "xs ! i = b"
    have "i < length (xs @ [x])" "(xs @ [x]) ! i = b" using i by (simp_all add: nth_append)
    then obtain j where j: "j < i" "(xs @ [x]) ! j \<in> A" using L unfolding after_def by blast
    then have "xs ! j \<in> A" using i(1) by (simp add: nth_append)
    then show "\<exists>j < i. xs ! j \<in> A" using j(1) by blast
  qed
  moreover have "\<exists>j < length xs. xs ! j \<in> A" if "x = b"
  proof -
    have "length xs < length (xs @ [x])" "(xs @ [x]) ! length xs = b" using that by simp_all
    then obtain j where j: "j < length xs" "(xs @ [x]) ! j \<in> A" using L unfolding after_def by blast
    then have "xs ! j \<in> A" by (simp add: nth_append)
    then show ?thesis using j(1) by blast
  qed
  ultimately show "after A b xs \<and> (x = b \<longrightarrow> (\<exists>j < length xs. xs ! j \<in> A))" by simp
next
  assume R: "after A b xs \<and> (x = b \<longrightarrow> (\<exists>j < length xs. xs ! j \<in> A))"
  show "after A b (xs @ [x])"
    unfolding after_def
  proof (intro allI impI)
    fix i assume i: "i < length (xs @ [x])" "(xs @ [x]) ! i = b"
    show "\<exists>j < i. (xs @ [x]) ! j \<in> A"
    proof (cases "i < length xs")
      case True
      then have "xs ! i = b" using i(2) by (simp add: nth_append)
      then obtain j where j: "j < i" "xs ! j \<in> A" using R True unfolding after_def by blast
      then have "(xs @ [x]) ! j \<in> A" using True by (simp add: nth_append)
      then show ?thesis using j(1) by blast
    next
      case False
      then have il: "i = length xs" using i(1) by simp
      then have "x = b" using i(2) by simp
      then obtain j where j: "j < length xs" "xs ! j \<in> A" using R by blast
      then have "(xs @ [x]) ! j \<in> A" by (simp add: nth_append)
      then show ?thesis using j(1) il by blast
    qed
  qed
qed

lemma after_snoc_unlocked:
  assumes "after A b xs" and "set xs \<inter> A \<noteq> {}"
  shows "after A b (xs @ [x])"
proof -
  obtain y where "y \<in> set xs" "y \<in> A" using assms(2) by blast
  then obtain j where "j < length xs" "xs ! j \<in> A" by (metis in_set_conv_nth)
  then show ?thesis using assms(1) unfolding after_snoc by blast
qed

lemma wake_trace: "trace (wake w r s) = trace s"
  by (simp add: wake_def split: option.splits status.splits)


lemma exec_trace:
  "trace (exec t q p s) = (case p of Emit x p' \<Rightarrow> trace s @ [x] | _ \<Rightarrow> trace s)"
  by (simp add: exec_def wake_trace spawn_trace split: proc.splits)

lemma step_cases:
  obtains (idle) "step s = s"
  | (drop) q where "step s = s\<lparr>ready := q\<rparr>"
  | (exec) t q p where "\<not> halted s" "ready s = t # q" "stat s t = Some (Ready p)"
      "step s = exec t q p s"
proof (cases "\<exists>t q p. \<not> halted s \<and> ready s = t # q \<and> stat s t = Some (Ready p)")
  case True
  then obtain t q p where "\<not> halted s" "ready s = t # q" "stat s t = Some (Ready p)" by blast
  then show ?thesis using exec [of t q p] by (simp add: step_def)
next
  case False
  show ?thesis
  proof (cases "halted s \<or> ready s = []")
    case True
    then have "step s = s" by (auto simp: step_def)
    then show ?thesis by (rule idle)
  next
    case False
    then obtain t q where r: "\<not> halted s" "ready s = t # q" by (cases "ready s") auto
    then have "\<forall>p. stat s t \<noteq> Some (Ready p)" using \<open>\<not> (\<exists>t q p. _ t q p)\<close> by auto
    then have "step s = s\<lparr>ready := q\<rparr>"
      using r by (simp add: step_def split: option.splits status.splits)
    then show ?thesis by (rule drop)
  qed
qed

lemma step_trace: "trace (step s) = trace s \<or> (\<exists>x. trace (step s) = trace s @ [x])"
proof (cases s rule: step_cases)
  case idle
  then show ?thesis by simp
next
  case (drop q)
  then show ?thesis by simp
next
  case (exec t q p)
  then show ?thesis by (cases p) (simp_all add: exec_trace)
qed

lemma ok_ready: "ok A b s \<Longrightarrow> ok A b (s\<lparr>ready := q\<rparr>)"
  by (erule ok_update) (simp_all add: pend_def)

lemma safe_step:
  assumes "b \<notin> A" and "safe A b s"
  shows "safe A b (step s)"
proof (cases "set (trace s) \<inter> A \<noteq> {}")
  case True
  have af: "after A b (trace s)" using assms(2) by (simp add: safe_def)
  from step_trace [of s] show ?thesis
  proof
    assume "trace (step s) = trace s"
    then show ?thesis using af True by (simp add: safe_def)
  next
    assume "\<exists>x. trace (step s) = trace s @ [x]"
    then obtain x where x: "trace (step s) = trace s @ [x]" ..
    have "after A b (trace s @ [x])" using af True by (rule after_snoc_unlocked)
    moreover have "set (trace s @ [x]) \<inter> A \<noteq> {}" using True by auto
    ultimately show ?thesis by (simp add: safe_def x)
  qed
next
  case False
  then have ok: "ok A b s" and af: "after A b (trace s)" using assms(2) by (auto simp: safe_def)
  show ?thesis
  proof (cases s rule: step_cases)
    case idle
    then show ?thesis using assms(2) by simp
  next
    case (drop q)
    then show ?thesis using af ok by (simp add: safe_def ok_ready)
  next
    case (exec t q p)
    have h: "held A b p" using ok exec(3) by (auto simp: ok_def safe_at_def dest: spec [of _ t])
    show ?thesis
    proof (cases "\<exists>x p'. p = Emit x p' \<and> x \<in> A")
      case True
      then obtain x p' where p: "p = Emit x p'" "x \<in> A" by blast
      then have tr: "trace (step s) = trace s @ [x]" by (simp add: exec(4) exec_trace)
      have "x \<noteq> b" using p(2) assms(1) by auto
      then have "after A b (trace s @ [x])" using af by (simp add: after_snoc)
      moreover have "set (trace s @ [x]) \<inter> A \<noteq> {}" using p(2) by auto
      ultimately show ?thesis by (simp add: safe_def tr)
    next
      case False
      then have "\<And>x p'. p = Emit x p' \<Longrightarrow> x \<notin> A" by blast
      then have ok': "ok A b (step s)" unfolding exec(4) by (rule ok_exec [OF ok exec(3)])
      have "after A b (trace (step s))"
      proof (cases "\<exists>x p'. p = Emit x p'")
        case True
        then obtain x p' where p: "p = Emit x p'" by blast
        then have "x \<noteq> b" using h False by auto
        then show ?thesis using af p by (simp add: exec(4) exec_trace after_snoc)
      next
        case False
        then have "trace (step s) = trace s" by (cases p) (simp_all add: exec(4) exec_trace)
        then show ?thesis using af by simp
      qed
      then show ?thesis using ok' by (simp add: safe_def)
    qed
  qed
qed

lemma safe_run: "b \<notin> A \<Longrightarrow> safe A b s \<Longrightarrow> safe A b (run n s)"
  by (induction n arbitrary: s) (simp_all add: safe_step)

lemma safe_start: "held A b p \<Longrightarrow> safe A b (start p)"
  by (simp add: safe_def ok_def safe_at_def start_def after_def)

lemma held_run: "b \<notin> A \<Longrightarrow> held A b p \<Longrightarrow> after A b (trace (run n (start p)))"
  using safe_run [OF _ safe_start, of b A p n] by (simp add: safe_def)

lemma after_Cons:
  assumes "after {a} b (x # xs)" and "x \<noteq> a"
  shows "x \<noteq> b \<and> after {a} b xs"
proof
  show "x \<noteq> b"
  proof
    assume "x = b"
    then have "\<exists>j < 0. (x # xs) ! j \<in> {a}"
      using assms(1) unfolding after_def by (metis length_Cons nth_Cons_0 zero_less_Suc)
    then show False by simp
  qed
  show "after {a} b xs"
    unfolding after_def
  proof (intro allI impI)
    fix i assume i: "i < length xs" "xs ! i = b"
    have "Suc i < length (x # xs)" "(x # xs) ! Suc i = b" using i by simp_all
    then have "\<exists>j < Suc i. (x # xs) ! j \<in> {a}"
      using assms(1) unfolding after_def by blast
    then obtain j where j: "j < Suc i" "(x # xs) ! j = a" by auto
    then obtain j' where "j = Suc j'" using assms(2) by (cases j) auto
    then show "\<exists>j < i. xs ! j \<in> {a}" using j by auto
  qed
qed

lemma after_precedes: "after {a} b xs \<Longrightarrow> precedes a b xs"
proof (induction xs)
  case Nil
  show ?case by simp
next
  case (Cons x xs)
  show ?case
  proof (cases "x = a")
    case True then show ?thesis by simp
  next
    case False
    then show ?thesis using after_Cons [OF Cons.prems False] Cons.IH by simp
  qed
qed

lemma after_never: "after {} b xs \<Longrightarrow> b \<notin> set xs"
  by (auto simp: after_def in_set_conv_nth)

lemma held_suspend [simp]: "held A b (suspend k p) = held A b p"
  by (induction k) simp_all

lemma must_pass_suspend [simp]: "must_pass A (suspend k p) = must_pass A p"
  by (induction k) simp_all

lemma must_emit_suspend [simp]: "must_emit A (suspend k p) = must_emit A p"
  by (induction k) simp_all

lemma held_block: "held_seqs A b ps \<Longrightarrow> held A b (block ps)"
  by (induction ps) (auto intro: held_seq)

lemma must_emit_block: "\<exists>p \<in> set ps. must_emit A p \<Longrightarrow> must_emit A (block ps)"
  by (induction ps) (auto intro: must_emit_seq)

lemma held_await:
  "held A b (await E c) =
     (Started c \<in> A \<or> (Started c \<noteq> b \<and>
        (case awaited E c of
           Completes k \<Rightarrow> Finished c \<in> A \<or> Finished c \<noteq> b
         | Fails k e \<Rightarrow> Failed c e \<in> A \<or> Failed c e \<noteq> b
         | Hangs \<Rightarrow> True)))"
  by (simp add: await_def split: behaviour.split)

lemma must_emit_await:
  "must_emit A (await E c) =
     (Started c \<in> A \<or>
        (case awaited E c of Completes k \<Rightarrow> Finished c \<in> A | _ \<Rightarrow> True))"
  by (simp add: await_def split: behaviour.split)

lemma must_pass_await: "must_pass A (await E c) = must_emit A (await E c)"
  by (simp add: await_def split: behaviour.split)

lemma must_pass_invoke: "must_pass A (invoke E c) = must_emit A (invoke E c)"
  by (simp add: invoke_def split: option.split)

lemma must_pass_info: "must_pass A (info m) = (Log m \<in> A)"
  by (simp add: info_def)

lemma held_invoke:
  "held A b (invoke E c) =
     (Started c \<in> A \<or> (Started c \<noteq> b \<and>
        (case called E c of
           None \<Rightarrow> Finished c \<in> A \<or> Finished c \<noteq> b
         | Some e \<Rightarrow> Failed c e \<in> A \<or> Failed c e \<noteq> b)))"
  by (simp add: invoke_def split: option.split)

lemma must_emit_invoke:
  "must_emit A (invoke E c) =
     (Started c \<in> A \<or> (case called E c of None \<Rightarrow> Finished c \<in> A | _ \<Rightarrow> True))"
  by (simp add: invoke_def split: option.split)

lemma held_info: "held A b (info m) = (Log m \<in> A \<or> Log m \<noteq> b)"
  by (simp add: info_def)

lemma must_emit_info: "must_emit A (info m) = (Log m \<in> A)"
  by (simp add: info_def)

lemma held_report:
  "held A b (report_init_time E t) = 
     (case called E ReportInitTime of
        None \<Rightarrow> held A b (info (InitTime (py_int (1000 * (now E 1 - t)))))
      | Some e \<Rightarrow> Log (StartFailed e) \<in> A \<or> Log (StartFailed e) \<noteq> b)"
  by (simp add: report_init_time_def split: option.split)

lemma must_pass_report:
  "must_pass A (report_init_time E t) =
     (case called E ReportInitTime of
        None \<Rightarrow> Log (InitTime (py_int (1000 * (now E 1 - t)))) \<in> A
      | Some e \<Rightarrow> True)"
  by (simp add: report_init_time_def info_def split: option.split)

lemmas held_simps = must_pass_await must_pass_invoke must_pass_info must_pass_report
  held_await must_emit_await held_invoke must_emit_invoke held_info must_emit_info held_report

lemma precedes_run:
  assumes "a \<noteq> b" and "held {a} b p"
  shows "precedes a b (trace (run n (start p)))"
  using held_run [of b "{a}" p n] assms by (simp add: after_precedes)

lemma initialize_eq:
  "initialize E = Emit (Log Waking) (Gather [init_components E] (Emit (Log AllReady) Return))"
  by (simp add: initialize_def info_def)

lemma held_init_components: "held_seqs A b (init_statements E) \<Longrightarrow> held A b (init_components E)"
  unfolding init_components_def by (rule held_block)

lemma held_await_other:
  "b \<noteq> Started c \<Longrightarrow> b \<noteq> Finished c \<Longrightarrow> (\<And>e. b \<noteq> Failed c e) \<Longrightarrow> held A b (await E c)"
  by (auto simp: held_await split: behaviour.split)

lemma held_schedule_tasks:
  assumes "\<And>s n. b \<noteq> Started (Run s n)" and "\<And>s n. b \<noteq> Finished (Run s n)"
    and "\<And>s n e. b \<noteq> Failed (Run s n) e"
  shows "held A b (schedule_tasks E)"
  by (simp add: schedule_tasks_def held_await_other assms)

lemma held_main_bootstrap:
  assumes "held_seqs A b (init_statements E)"
    and "b \<noteq> Log Waking" and "b \<noteq> Log AllReady"
    and "\<And>s n. b \<noteq> Started (Run s n)" and "\<And>s n. b \<noteq> Finished (Run s n)"
    and "\<And>s n e. b \<noteq> Failed (Run s n) e"
  shows "held A b (main E)"
  using held_init_components [OF assms(1)] held_schedule_tasks [OF assms(4-6)] assms(2,3)
  by (auto simp: main_def initialize_eq)

lemma bootstrap_precedes:
  assumes "held_seqs {a} b (init_statements E)"
    and "a \<noteq> b" and "b \<noteq> Log Waking" and "b \<noteq> Log AllReady"
    and "\<And>s n. b \<noteq> Started (Run s n)" and "\<And>s n. b \<noteq> Finished (Run s n)"
    and "\<And>s n e. b \<noteq> Failed (Run s n) e"
  shows "precedes a b (trace (run n (start (main E))))"
  by (rule precedes_run [OF assms(2)]) (rule held_main_bootstrap [OF assms(1,3-7)])

section \<open>Claims about the bootstrap sequence\<close>

text \<open>
  C7. In every run of the program, for every behaviour of the collaborators and at every
  moment, neither \<^verbatim>\<open>register_message_handler\<close> nor
  \<^verbatim>\<open>register_custom_message_handler\<close> has begun unless the chat manager's
  \<^verbatim>\<open>_initialize\<close> and the mood manager's \<^verbatim>\<open>start\<close> have both completed.
\<close>

theorem handlers_after_chat_and_mood:
  "precedes (Finished ChatInitialize) (Started RegisterMessageHandler) (trace (run n (start (main E))))
   \<and> precedes (Finished MoodStart) (Started RegisterMessageHandler) (trace (run n (start (main E))))
   \<and> precedes (Finished ChatInitialize) (Started RegisterCustomMessageHandler) (trace (run n (start (main E))))
   \<and> precedes (Finished MoodStart) (Started RegisterCustomMessageHandler) (trace (run n (start (main E))))"
  by (intro conjI bootstrap_precedes)
     (simp_all add: init_statements_def held_simps split: behaviour.split option.split)

theorem handlers_after_chat_and_mood_witness:
  "Started RegisterMessageHandler \<in> set (trace (run 60 (start (main calm))))
   \<and> Started RegisterCustomMessageHandler \<in> set (trace (run 60 (start (main calm))))
   \<and> precedes (Finished ChatInitialize) (Started RegisterMessageHandler) (trace (run 60 (start (main calm))))
   \<and> precedes (Finished MoodStart) (Started RegisterMessageHandler) (trace (run 60 (start (main calm))))
   \<and> precedes (Finished ChatInitialize) (Started RegisterCustomMessageHandler) (trace (run 60 (start (main calm))))
   \<and> precedes (Finished MoodStart) (Started RegisterCustomMessageHandler) (trace (run 60 (start (main calm))))"
proof -
  have "Started RegisterMessageHandler \<in> set (trace (run 60 (start (main calm))))"
    by code_simp
  moreover have "Started RegisterCustomMessageHandler \<in> set (trace (run 60 (start (main calm))))"
    by code_simp
  ultimately show ?thesis using handlers_after_chat_and_mood [of 60 calm] by blast
qed

text \<open>
  C9. The first initializations of \<^verbatim>\<open>_init_components\<close> run one after the other
  in the order of the source: for any two of them, the later one (the auto-save side
  task included) has not begun before the earlier one has completed.
\<close>

theorem phase1_sequential:
  "list_all (\<lambda>(a, b). precedes (Finished a) (Started b) (trace (run n (start (main E)))))
     (pairs phase1)"
  unfolding phase1_def pairs.simps list.map append.simps list.pred_inject prod.case
  by (intro conjI bootstrap_precedes TrueI)
     (simp_all add: init_statements_def held_simps split: behaviour.split option.split)

theorem phase1_sequential_witness:
  "map Started phase1 = filter (\<lambda>x. x \<in> set (map Started phase1)) (trace (run 60 (start (main calm))))
   \<and> list_all (\<lambda>(a, b). precedes (Finished a) (Started b) (trace (run 60 (start (main calm)))))
     (pairs phase1)"
proof -
  have "map Started phase1
      = filter (\<lambda>x. x \<in> set (map Started phase1)) (trace (run 60 (start (main calm))))"
    by code_simp
  then show ?thesis using phase1_sequential [of 60 calm] by blast
qed

lemma never_run: "held {} b p \<Longrightarrow> b \<notin> set (trace (run n (start p)))"
  using held_run [of b "{}" p n] by (simp add: after_never)

lemma must_pass_cycle:
  assumes "must_emit A (await E (Run s n))"
  shows "must_pass A (Gather [await E (Run EmojiPeriodicCheck n), await E (Run AppRun n),
       await E (Run ServerRun n)] Return)"
  using assms by (cases s) simp_all

lemma held_schedule_gate:
  assumes "must_emit A (await E (Run s n))"
  shows "held A (Started (Run s' (Suc n))) (schedule_tasks E)"
proof -
  have "held A (Started (Run s' (Suc n)))
          (Gather [await E (Run EmojiPeriodicCheck j), await E (Run AppRun j),
                   await E (Run ServerRun j)] Return)"
    if "j \<noteq> Suc n" for j
    using that by (simp add: held_await_other)
  moreover have "\<not> (\<forall>i. i < Suc n \<longrightarrow> \<not> must_pass A
          (Gather [await E (Run EmojiPeriodicCheck i), await E (Run AppRun i),
                   await E (Run ServerRun i)] Return))"
    using must_pass_cycle [OF assms] by blast
  ultimately show ?thesis
    unfolding schedule_tasks_def held.simps by (metis le0)
qed

lemma held_main_service:
  assumes "held A b (schedule_tasks E)" and "held_seqs A b (init_statements E)"
    and "b \<noteq> Log Waking" and "b \<noteq> Log AllReady"
  shows "held A b (main E)"
  using assms held_init_components [OF assms(2)] by (auto simp: main_def initialize_eq)

section \<open>Claims about the service loop\<close>

text \<open>
  C6, as amended. A service task that exits does not by itself restart anything: in every
  run, no service of iteration \<open>n + 1\<close> of \<^verbatim>\<open>schedule_tasks\<close> is started before
  every service task of iteration \<open>n\<close> has returned, and if one of them never returns
  normally, the next iteration is never started.
\<close>

theorem restart_needs_all_returned:
  "precedes (Finished (Run s n)) (Started (Run s' (Suc n))) (trace (run k (start (main E))))
   \<and> ((\<forall>d. awaited E (Run s n) \<noteq> Completes d) \<longrightarrow>
        Started (Run s' (Suc n)) \<notin> set (trace (run k (start (main E)))))"
proof
  have "held {Finished (Run s n)} (Started (Run s' (Suc n))) (main E)"
    by (rule held_main_service, rule held_schedule_gate [of _ _ s n])
       (simp_all add: init_statements_def held_simps split: behaviour.split option.split)
  then show "precedes (Finished (Run s n)) (Started (Run s' (Suc n))) (trace (run k (start (main E))))"
    by (intro precedes_run) simp_all
next
  show "(\<forall>d. awaited E (Run s n) \<noteq> Completes d) \<longrightarrow>
        Started (Run s' (Suc n)) \<notin> set (trace (run k (start (main E))))"
  proof
    assume a: "\<forall>d. awaited E (Run s n) \<noteq> Completes d"
    have "held {} (Started (Run s' (Suc n))) (main E)"
      using a
      by (intro held_main_service held_schedule_gate [of _ _ s n])
         (simp_all add: init_statements_def held_simps split: behaviour.split option.split)
    then show "Started (Run s' (Suc n)) \<notin> set (trace (run k (start (main E))))"
      by (rule never_run)
  qed
qed

theorem restart_needs_all_returned_witness:
  "Started (Run AppRun (Suc 0)) \<in> set (trace (run 80 (start (main one_cycle))))
   \<and> precedes (Finished (Run ServerRun 0)) (Started (Run AppRun (Suc 0))) (trace (run 80 (start (main one_cycle))))
   \<and> (\<forall>d. awaited one_exits (Run ServerRun 0) \<noteq> Completes d)
   \<and> Started (Run AppRun (Suc 0)) \<notin> set (trace (run 80 (start (main one_exits))))"
proof -
  have 1: "Started (Run AppRun (Suc 0)) \<in> set (trace (run 80 (start (main one_cycle))))"
    by code_simp
  have 2: "\<forall>d. awaited one_exits (Run ServerRun 0) \<noteq> Completes d"
    by (simp add: one_exits_def)
  show ?thesis
    using 1 2 restart_needs_all_returned [of ServerRun 0 AppRun 80 one_cycle]
      restart_needs_all_returned [of ServerRun 0 AppRun 80 one_exits] by blast
qed

text \<open>
  C6 as stated fails: when \<^verbatim>\<open>app.run()\<close> returns and the two other services keep
  running, no service is started again, and the loop has nothing left to run.
\<close>

theorem single_exit_no_restart:
  "Finished (Run AppRun 0) \<in> set (trace (run 80 (start (main one_exits))))
   \<and> Started (Run EmojiPeriodicCheck 1) \<notin> set (trace (run 80 (start (main one_exits))))
   \<and> Started (Run AppRun 1) \<notin> set (trace (run 80 (start (main one_exits))))
   \<and> Started (Run ServerRun 1) \<notin> set (trace (run 80 (start (main one_exits))))
   \<and> ready (run 80 (start (main one_exits))) = []"
  by code_simp

lemma precedes_mem: "precedes a b xs \<Longrightarrow> b \<in> set xs \<Longrightarrow> a \<in> set xs"
  by (induction xs) auto

lemma bootstrap_never:
  assumes "held_seqs {} b (init_statements E)"
    and "b \<noteq> Log Waking" and "b \<noteq> Log AllReady"
    and "\<And>s n. b \<noteq> Started (Run s n)" and "\<And>s n. b \<noteq> Finished (Run s n)"
    and "\<And>s n e. b \<noteq> Failed (Run s n) e"
  shows "b \<notin> set (trace (run n (start (main E))))"
  by (rule never_run) (rule held_main_bootstrap [OF assms])

lemma held_invoke_other:
  "b \<noteq> Started c \<Longrightarrow> b \<noteq> Finished c \<Longrightarrow> (\<And>e. b \<noteq> Failed c e) \<Longrightarrow> held A b (invoke E c)"
  by (auto simp: held_invoke split: option.split)

lemma held_info_other: "b \<noteq> Log m \<Longrightarrow> held A b (info m)"
  by (auto simp: held_info)

lemma held_report_other: "(\<And>m. b \<noteq> Log m) \<Longrightarrow> held A b (report_init_time E t)"
  by (auto simp: held_report held_info split: option.split)

lemma held_await_completes:
  "awaited E c = Completes k \<Longrightarrow> b \<noteq> Started c \<Longrightarrow> b \<noteq> Finished c \<Longrightarrow> held A b (await E c)"
  by (simp add: held_await)

lemma held_await_incomplete:
  "\<forall>k. awaited E c \<noteq> Completes k \<Longrightarrow> held A (Finished c) (await E c)"
  by (cases "awaited E c") (auto simp: held_await)

lemma must_pass_await_incomplete:
  "\<forall>k. awaited E c \<noteq> Completes k \<Longrightarrow> must_pass A (await E c)"
  by (cases "awaited E c") (auto simp: must_pass_await must_emit_await)

lemma held_invoke_returns:
  "called E c = None \<Longrightarrow> b \<noteq> Started c \<Longrightarrow> b \<noteq> Finished c \<Longrightarrow> held A b (invoke E c)"
  by (simp add: held_invoke)

lemma held_invoke_raises:
  "called E c = Some e \<Longrightarrow> held A (Finished c) (invoke E c)"
  by (simp add: held_invoke)

lemma must_pass_invoke_raises: "called E c = Some e \<Longrightarrow> must_pass A (invoke E c)"
  by (simp add: must_pass_invoke must_emit_invoke)

lemmas quiet = held_await_other held_invoke_other held_info_other held_report_other

lemma awaited_outcome_exclusive:
  assumes "c \<in> {AddOnlineTimeRecordTask, AddStatisticOutputTask, AddTelemetryHeartBeatTask,
     MoodStart, ChatInitialize, CheckAndRunMigrations, HandleOnStart}"
  shows "\<not> (Failed c e \<in> set (trace (run n (start (main E))))
           \<and> Finished c \<in> set (trace (run n (start (main E)))))"
proof (cases "\<exists>k. awaited E c = Completes k")
  case True
  then obtain k where k: "awaited E c = Completes k" ..
  have "held_seqs {} (Failed c e) (init_statements E)"
    using assms k
    by (elim insertE emptyE) (simp_all add: init_statements_def quiet held_await_completes)
  then have "Failed c e \<notin> set (trace (run n (start (main E))))"
    using assms by (intro bootstrap_never) auto
  then show ?thesis by simp
next
  case False
  then have k: "\<forall>k. awaited E c \<noteq> Completes k" by simp
  have "held_seqs {} (Finished c) (init_statements E)"
    using assms held_await_incomplete [OF k] must_pass_await_incomplete [OF k]
    by (elim insertE emptyE) (simp_all add: init_statements_def quiet)
  then have "Finished c \<notin> set (trace (run n (start (main E))))"
    using assms by (intro bootstrap_never) auto
  then show ?thesis by simp
qed

lemma invoked_outcome_exclusive:
  assumes "c \<in> {LpmmStartUp, LoadAllPlugins, EmojiInitialize, RegisterMessageHandler,
     RegisterCustomMessageHandler}"
  shows "\<not> (Failed c e \<in> set (trace (run n (start (main E))))
           \<and> Finished c \<in> set (trace (run n (start (main E)))))"
proof (cases "called E c")
  case None
  have "held_seqs {} (Failed c e) (init_statements E)"
    using assms None
    by (elim insertE emptyE) (simp_all add: init_statements_def quiet held_invoke_returns)
  then have "Failed c e \<notin> set (trace (run n (start (main E))))"
    using assms by (intro bootstrap_never) auto
  then show ?thesis by simp
next
  case (Some e')
  have "held_seqs {} (Finished c) (init_statements E)"
    using assms held_invoke_raises [OF Some] must_pass_invoke_raises [OF Some]
    by (elim insertE emptyE) (simp_all add: init_statements_def quiet)
  then have "Finished c \<notin> set (trace (run n (start (main E))))"
    using assms by (intro bootstrap_never) auto
  then show ?thesis by simp
qed

section \<open>Claims about the first phase of the bootstrap\<close>

text \<open>
  C2, as amended. The initializations of the first phase are not run concurrently: each
  begins only after the one before it in the source has completed. Handler registration
  begins only after every one of them has completed, and if any of them raises, handler
  registration never begins.
\<close>

theorem phase1_barrier:
  "list_all (\<lambda>(a, b). precedes (Finished a) (Started b) (trace (run n (start (main E)))))
     (zip initializations (tl initializations))
   \<and> (\<forall>c \<in> set initializations.
         precedes (Finished c) (Started RegisterMessageHandler) (trace (run n (start (main E))))
         \<and> (\<forall>e. Failed c e \<in> set (trace (run n (start (main E)))) \<longrightarrow>
               Started RegisterMessageHandler \<notin> set (trace (run n (start (main E))))))"
proof -
  let ?tr = "trace (run n (start (main E)))"
  have order: "list_all (\<lambda>(a, b). precedes (Finished a) (Started b) ?tr)
     (zip initializations (tl initializations))"
    unfolding initializations_def list.sel zip.simps list.case list.pred_inject prod.case
    by (intro conjI bootstrap_precedes TrueI)
       (simp_all add: init_statements_def held_simps split: behaviour.split option.split)
  have gate: "list_all (\<lambda>c. precedes (Finished c) (Started RegisterMessageHandler) ?tr)
     initializations"
    unfolding initializations_def list.pred_inject
    by (intro conjI bootstrap_precedes TrueI)
       (simp_all add: init_statements_def held_simps split: behaviour.split option.split)
  have abort: "Started RegisterMessageHandler \<notin> set ?tr"
    if c: "c \<in> set initializations" and f: "Failed c e \<in> set ?tr" for c e
  proof
    assume "Started RegisterMessageHandler \<in> set ?tr"
    moreover have "precedes (Finished c) (Started RegisterMessageHandler) ?tr"
      using gate c by (simp add: list_all_iff)
    ultimately have fin: "Finished c \<in> set ?tr" by (rule precedes_mem [rotated])
    have "c \<in> {AddOnlineTimeRecordTask, AddStatisticOutputTask, AddTelemetryHeartBeatTask,
        MoodStart, ChatInitialize, CheckAndRunMigrations, HandleOnStart}
      \<or> c \<in> {LpmmStartUp, LoadAllPlugins, EmojiInitialize, RegisterMessageHandler,
        RegisterCustomMessageHandler}"
      using c by (auto simp: initializations_def)
    then show False
      using awaited_outcome_exclusive [of c e n E] invoked_outcome_exclusive [of c e n E] f fin
      by blast
  qed
  show ?thesis using order gate abort by (simp add: list_all_iff)
qed

theorem phase1_barrier_witness:
  "Started RegisterMessageHandler \<in> set (trace (run 60 (start (main calm))))
   \<and> precedes (Finished MoodStart) (Started RegisterMessageHandler) (trace (run 60 (start (main calm))))
   \<and> precedes (Finished MoodStart) (Started ChatInitialize) (trace (run 60 (start (main calm))))
   \<and> Failed LoadAllPlugins ''bad plugin'' \<in> set (trace (run 60 (start (main plugins_fail))))
   \<and> Started RegisterMessageHandler \<notin> set (trace (run 60 (start (main plugins_fail))))"
proof -
  have 1: "Started RegisterMessageHandler \<in> set (trace (run 60 (start (main calm))))"
    by code_simp
  have 2: "Failed LoadAllPlugins ''bad plugin'' \<in> set (trace (run 60 (start (main plugins_fail))))"
    by code_simp
  have 3: "MoodStart \<in> set initializations" "LoadAllPlugins \<in> set initializations"
    "(MoodStart, ChatInitialize) \<in> set (zip initializations (tl initializations))"
    by (simp_all add: initializations_def)
  show ?thesis
    using 1 2 3 phase1_barrier [of 60 calm] phase1_barrier [of 60 plugins_fail]
    by (auto simp: list_all_iff)
qed

text \<open>
  C2 as stated fails: were the initializations gathered, the chat manager would be
  initialized while \<^verbatim>\<open>mood_manager.start()\<close> is pending; in the program it never is,
  and nothing is left to run.
\<close>

theorem phase1_not_concurrent:
  "Started ChatInitialize \<in> set (trace (run 60 (start (spec_phase1 mood_hangs))))
   \<and> Started MoodStart \<in> set (trace (run 60 (start (main mood_hangs))))
   \<and> Started ChatInitialize \<notin> set (trace (run 60 (start (main mood_hangs))))
   \<and> ready (run 60 (start (main mood_hangs))) = []"
  by code_simp

section \<open>Claims about the start of the services\<close>









section \<open>Claims about the clock\<close>


lemma map_loop_fields [simp]:
  "stat (map_loop h s) t = map_option (map_status h) (stat s t)"
  "waiter (map_loop h s) = waiter s"
  "ready (map_loop h s) = ready s"
  "fresh (map_loop h s) = fresh s"
  "trace (map_loop h s) = map h (trace s)"
  by (simp_all add: map_loop_def)

lemma loop_eqI:
  assumes "\<And>t. stat s t = stat s' t" "waiter s = waiter s'" "ready s = ready s'"
    "fresh s = fresh s'" "trace s = trace s'"
  shows "s = (s' :: loop)"
  using assms by (cases s, cases s') (auto simp: fun_eq_iff)


lemma returned_map [simp]: "returned (map_option (map_status h) st) = returned st"
  by (cases st; cases "the st") (simp_all add: returned_def)

lemma ended_map [simp]: "ended (map_option (map_status h) st) = ended st"
  by (cases st; cases "the st") (simp_all add: ended_def)


lemma map_loop_stat_upd:
  "(map_loop h s)\<lparr>stat := (stat (map_loop h s))(t \<mapsto> map_status h st)\<rparr>
     = map_loop h (s\<lparr>stat := (stat s)(t \<mapsto> st)\<rparr>)"
  by (rule loop_eqI) (simp_all add: map_loop_def)


lemma map_loop_trace_upd:
  "(map_loop h s)\<lparr>trace := trace (map_loop h s) @ [h x]\<rparr> = map_loop h (s\<lparr>trace := trace s @ [x]\<rparr>)"
  by (rule loop_eqI) (simp_all add: map_loop_def)

lemma stat_map_loop: "stat (map_loop h s) = (\<lambda>t. map_option (map_status h) (stat s t))"
  by (simp add: fun_eq_iff)


lemma halted_map [simp]: "halted (map_loop h s) = halted s"
  by (simp add: halted_def)





lemma await_now [simp]: "await (E\<lparr>now := clk\<rparr>) c = await E c"
  by (simp add: await_def)

lemma invoke_now [simp]: "invoke (E\<lparr>now := clk\<rparr>) c = invoke E c"
  by (simp add: invoke_def)






section \<open>Every ready task gets its turn\<close>

lemma seg_pos [simp]: "0 < seg p"
  by (induction p) simp_all





























lemma stop_returns: "outcome p = Some Done \<Longrightarrow> stop p = Return"
  by (induction p) auto

lemma stop_blocks: "outcome p = Some Blocked \<Longrightarrow> stop p = Block"
  by (induction p) auto



















































section \<open>Claims about failures of the bootstrap\<close>



end
